theory Spec2Isabelle
  imports Complex_Main
begin

unbundle bit_operations_syntax

section \<open>The random source\<close>

text \<open>
  The program draws every random value from Python's process-wide \<^verbatim>\<open>random\<close> module.
  That generator is a library; it is modelled as a tape of outcomes with a cursor, so
  that each call consumes the tape and returns a value that the tape determines.
  \<^verbatim>\<open>random.getrandbits(k)\<close> reads \<open>k\<close> outcomes.
\<close>

record rng =
  tape :: "nat \<Rightarrow> bool"
  cursor :: nat

definition getrandbits :: "nat \<Rightarrow> rng \<Rightarrow> int \<times> rng" where
  "getrandbits k g =
     (horner_sum of_bool 2 (map (tape g) [cursor g ..< cursor g + k]),
      g\<lparr>cursor := cursor g + k\<rparr>)"

section \<open>SecureBB84\<close>

text \<open>
  The attributes that \<^verbatim>\<open>SecureBB84.__init__\<close> sets. Rates are Python floats in the
  source; they are rationals here (\<open>errors / total_matched\<close> is a quotient of two
  counts, and the thresholds are decimal constants).
\<close>

record bb84 =
  error_threshold :: rat
  num_qubits :: nat
  min_key_length :: nat
  verification_bits :: nat
  noise_threshold :: rat
  chunk_size :: nat

definition SecureBB84 :: bb84 where
  "SecureBB84 = \<lparr>error_threshold = 15 / 100, num_qubits = 1000000, min_key_length = 500,
     verification_bits = 40, noise_threshold = 95 / 100, chunk_size = 1000\<rparr>"

definition bases :: "string list" where
  "bases = [''rectilinear'', ''diagonal'']"

text \<open>\<^verbatim>\<open>random.getrandbits(1)\<close>\<close>

definition secure_random :: "rng \<Rightarrow> int \<times> rng" where
  "secure_random g = getrandbits 1 g"

text \<open>\<^verbatim>\<open>random.choice(self.bases)\<close>: one outcome of the tape picks one of the two bases.\<close>

definition random_choice_bases :: "rng \<Rightarrow> string \<times> rng" where
  "random_choice_bases g =
     (bases ! (if tape g (cursor g) then 1 else 0), g\<lparr>cursor := cursor g + 1\<rparr>)"

definition simulate_transmission :: "int \<Rightarrow> string \<Rightarrow> string \<Rightarrow> rng \<Rightarrow> (int \<times> rat) \<times> rng" where
  "simulate_transmission bit' send_basis receive_basis g =
     (if send_basis = receive_basis then ((bit', 1), g)
      else (let (x, g') = secure_random g in ((x, 1 / 2), g')))"

text \<open>The list comprehensions \<^verbatim>\<open>[self.secure_random() for _ in range(n)]\<close> and
  \<^verbatim>\<open>[random.choice(self.bases) for _ in range(n)]\<close>.\<close>

fun draw_bits :: "nat \<Rightarrow> rng \<Rightarrow> int list \<times> rng" where
  "draw_bits 0 g = ([], g)"
| "draw_bits (Suc n) g =
     (let (b, g1) = secure_random g; (bs, g2) = draw_bits n g1 in (b # bs, g2))"

fun draw_bases :: "nat \<Rightarrow> rng \<Rightarrow> string list \<times> rng" where
  "draw_bases 0 g = ([], g)"
| "draw_bases (Suc n) g =
     (let (b, g1) = random_choice_bases g; (bs, g2) = draw_bases n g1 in (b # bs, g2))"

text \<open>The body of the transmission loop \<^verbatim>\<open>for i in range(self.num_qubits)\<close>; the state is
  \<open>(received_bits, received_confidence, rng)\<close>.\<close>

definition transmit_step ::
  "int list \<Rightarrow> string list \<Rightarrow> string list \<Rightarrow> nat \<Rightarrow>
   int list \<times> rat list \<times> rng \<Rightarrow> int list \<times> rat list \<times> rng" where
  "transmit_step alice_bits alice_bases bob_bases i st =
     (case st of (received_bits, received_confidence, g) \<Rightarrow>
        (let ((bit', conf), g') =
               simulate_transmission (alice_bits ! i) (alice_bases ! i) (bob_bases ! i) g
         in (received_bits @ [bit'], received_confidence @ [conf], g')))"

text \<open>The locals of the sifting pass. \<open>verification\<close> is the source's list
  \<^verbatim>\<open>verification_bits\<close> (the attribute of that name is the window size).\<close>

record sifting =
  sifted_key :: "int list"
  verification :: "int list"
  errors :: nat
  total_matched :: nat

definition sift_step ::
  "bb84 \<Rightarrow> int list \<Rightarrow> string list \<Rightarrow> string list \<Rightarrow> int list \<Rightarrow> nat \<Rightarrow> sifting \<Rightarrow> sifting" where
  "sift_step cfg alice_bits alice_bases bob_bases received_bits i s =
     (if alice_bases ! i = bob_bases ! i then
        (let s1 = s\<lparr>total_matched := total_matched s + 1\<rparr>;
             s2 = (if alice_bits ! i \<noteq> received_bits ! i
                   then s1\<lparr>errors := errors s1 + 1\<rparr> else s1)
         in if length (verification s2) < verification_bits cfg
            then s2\<lparr>verification := verification s2 @ [alice_bits ! i]\<rparr>
            else s2\<lparr>sifted_key := sifted_key s2 @ [alice_bits ! i]\<rparr>)
      else s)"

text \<open>One pass of the \<^verbatim>\<open>while retry_count < max_retries\<close> body up to the end of
  sifting: draw, transmit, sift. All indices \<open>i < num_qubits\<close> are in range of the
  four lists.\<close>

definition run_attempt :: "bb84 \<Rightarrow> rng \<Rightarrow> sifting \<times> rng" where
  "run_attempt cfg g =
     (let n = num_qubits cfg;
          (alice_bits, g1) = draw_bits n g;
          (alice_bases, g2) = draw_bases n g1;
          (bob_bases, g3) = draw_bases n g2;
          (received_bits, received_confidence, g4) =
             fold (transmit_step alice_bits alice_bases bob_bases) [0..<n] ([], [], g3);
          s = fold (sift_step cfg alice_bits alice_bases bob_bases received_bits) [0..<n]
                \<lparr>sifted_key = [], verification = [], errors = 0, total_matched = 0\<rparr>
      in (s, g4))"

definition max_retries :: nat where
  "max_retries = 3"

definition error_rate :: "sifting \<Rightarrow> rat" where
  "error_rate s = of_nat (errors s) / of_nat (total_matched s)"

text \<open>The retry loop of \<^verbatim>\<open>generate_key\<close>. The result is the returned pair, the value of
  \<^verbatim>\<open>retry_count\<close> at the return, and the random source after the call.\<close>

function generate_key_loop ::
  "bb84 \<Rightarrow> nat \<Rightarrow> rng \<Rightarrow> (int list option \<times> rat) \<times> nat \<times> rng" where
  "generate_key_loop cfg retry_count g =
     (if retry_count < max_retries then
        (let (s, g') = run_attempt cfg g in
         if total_matched s = 0 then generate_key_loop cfg (retry_count + 1) g'
         else if min_key_length cfg \<le> length (sifted_key s) \<and> error_rate s \<le> error_threshold cfg
              then ((Some (sifted_key s), error_rate s), retry_count, g')
              else generate_key_loop cfg (retry_count + 1) g')
      else ((None, 1), retry_count, g))"
  by pat_completeness auto
termination
  by (relation "measure (\<lambda>(cfg, retry_count, g). max_retries - retry_count)") auto

declare generate_key_loop.simps [simp del]

definition generate_key :: "bb84 \<Rightarrow> rng \<Rightarrow> (int list option \<times> rat) \<times> rng" where
  "generate_key cfg g = (case generate_key_loop cfg 0 g of (r, retry_count, g') \<Rightarrow> (r, g'))"

text \<open>The three ways an attempt is not accepted.\<close>

definition validation_fails :: "bb84 \<Rightarrow> sifting \<Rightarrow> bool" where
  "validation_fails cfg s =
     (total_matched s = 0 \<or> length (sifted_key s) < min_key_length cfg
      \<or> error_threshold cfg < error_rate s)"



lemma secure_random_eq:
  "secure_random g = ((if tape g (cursor g) then 1 else 0), g\<lparr>cursor := cursor g + 1\<rparr>)"
  by (simp add: secure_random_def getrandbits_def)

lemma length_draw_bits: "length (fst (draw_bits n g)) = n"
  by (induction n arbitrary: g) (auto simp: split_def Let_def)

lemma length_draw_bases: "length (fst (draw_bases n g)) = n"
  by (induction n arbitrary: g) (auto simp: split_def Let_def)

lemma transmit_fold:
  "length (fst (fold (transmit_step ab abas bbs) [0..<n] ([], [], g))) = n \<and>
   (\<forall>i<n. abas ! i = bbs ! i \<longrightarrow>
      fst (fold (transmit_step ab abas bbs) [0..<n] ([], [], g)) ! i = ab ! i)"
proof (induction n)
  case 0
  show ?case by simp
next
  case (Suc n)
  obtain rb rc g' where st: "fold (transmit_step ab abas bbs) [0..<n] ([], [], g) = (rb, rc, g')"
    by (cases "fold (transmit_step ab abas bbs) [0..<n] ([], [], g)") auto
  from Suc st have len: "length rb = n"
    and old: "\<forall>i<n. abas ! i = bbs ! i \<longrightarrow> rb ! i = ab ! i" by auto
  have step: "fold (transmit_step ab abas bbs) [0..<Suc n] ([], [], g) =
      transmit_step ab abas bbs n (rb, rc, g')"
    by (simp add: st)
  have fst_step: "fst (transmit_step ab abas bbs n (rb, rc, g')) =
      rb @ [if abas ! n = bbs ! n then ab ! n else fst (secure_random g')]"
    by (simp add: transmit_step_def simulate_transmission_def split_def Let_def)
  show ?case
    unfolding step fst_step using len old
    by (auto simp: nth_append less_Suc_eq)
qed

lemma sift_step_errors:
  "(alice_bases ! i = bob_bases ! i \<longrightarrow> alice_bits ! i = received_bits ! i) \<Longrightarrow>
   errors (sift_step cfg alice_bits alice_bases bob_bases received_bits i s) = errors s"
  by (simp add: sift_step_def Let_def)

lemma sift_fold_errors:
  "\<forall>i<m. abas ! i = bbs ! i \<longrightarrow> ab ! i = rb ! i \<Longrightarrow>
   errors (fold (sift_step cfg ab abas bbs rb) [0..<m] s) = errors s"
  by (induction m) (simp_all add: sift_step_errors)

lemma run_attempt_errors: "errors (fst (run_attempt cfg g)) = 0"
proof -
  have "errors (fold (sift_step cfg ab abas bbs
          (fst (fold (transmit_step ab abas bbs) [0..<n] ([], [], g3)))) [0..<n] s) = errors s"
    for ab abas bbs n g3 s
    by (rule sift_fold_errors) (use transmit_fold [of ab abas bbs n g3] in auto)
  then show ?thesis
    by (simp add: run_attempt_def Let_def split_def)
qed


section \<open>The key pool\<close>

datatype py_exc = PyException | IndexError | ValueError | ZeroDivisionError | EOFError
  | UnicodeEncodeError | UnicodeDecodeError | FileNotFoundError | TypeError

function generate_key_pool_loop ::
  "bb84 \<Rightarrow> nat \<Rightarrow> nat \<Rightarrow> int list list \<Rightarrow> rng \<Rightarrow> bool \<times> int list list \<times> rng" where
  "generate_key_pool_loop cfg needed_length current_length key_pool g =
     (if current_length < needed_length then
        (case generate_key cfg g of
           ((None, rate), g') \<Rightarrow> (False, key_pool, g')
         | ((Some key, rate), g') \<Rightarrow>
             if key = [] then (False, key_pool, g')
             else generate_key_pool_loop cfg needed_length (current_length + length key)
                    (key_pool @ [key]) g')
      else (True, key_pool, g))"
  by pat_completeness auto
termination
proof (relation "measure (\<lambda>(cfg, needed_length, current_length, key_pool, g).
        needed_length - current_length)", goal_cases)
  case 1
  show ?case by simp
next
  case (2 cfg needed_length current_length key_pool g x g' ko rate key)
  then have "0 < length key" by simp
  with 2(1) show ?case by (simp del: length_greater_0_conv)
qed

declare generate_key_pool_loop.simps [simp del]

definition generate_key_pool :: "bb84 \<Rightarrow> nat \<Rightarrow> int list list \<Rightarrow> rng \<Rightarrow> bool \<times> int list list \<times> rng" where
  "generate_key_pool cfg needed_length key_pool g =
     generate_key_pool_loop cfg needed_length (sum_list (map length key_pool)) key_pool g"

lemma generate_key_pool_loop_done:
  "\<not> c < n \<Longrightarrow> generate_key_pool_loop cfg n c pool g = (True, pool, g)"
  by (subst generate_key_pool_loop.simps) simp

lemma generate_key_pool_loop_step:
  "c < n \<Longrightarrow> generate_key cfg g = ((ko, rate), g1) \<Longrightarrow>
   generate_key_pool_loop cfg n c pool g =
     (case ko of None \<Rightarrow> (False, pool, g1)
      | Some key \<Rightarrow> if key = [] then (False, pool, g1)
          else generate_key_pool_loop cfg n (c + length key) (pool @ [key]) g1)"
  by (subst generate_key_pool_loop.simps) (simp split: option.splits)

lemma generate_key_pool_loop_nonempty:
  "generate_key_pool_loop cfg n c pool g = (True, pool', g') \<Longrightarrow> [] \<notin> set pool \<Longrightarrow>
   c = sum_list (map length pool) \<Longrightarrow>
   [] \<notin> set pool' \<and> n \<le> sum_list (map length pool')"
proof (induction cfg n c pool g rule: generate_key_pool_loop.induct)
  case (1 cfg needed_length current_length key_pool g)
  show ?case
  proof (cases "current_length < needed_length")
    case False
    with "1.prems" show ?thesis
      by (simp add: generate_key_pool_loop_done)
  next
    case True
    obtain ko rate g1 where gk: "generate_key cfg g = ((ko, rate), g1)"
      by (cases "generate_key cfg g") auto
    from "1.prems"(1) obtain key where ko: "ko = Some key" and ne: "key \<noteq> []"
      and rec: "generate_key_pool_loop cfg needed_length (current_length + length key)
                  (key_pool @ [key]) g1 = (True, pool', g')"
      unfolding generate_key_pool_loop_step [OF True gk]
      by (cases ko) (auto split: if_splits)
    show ?thesis
      using "1.IH" [OF True gk [symmetric] refl ko ne rec] "1.prems"(2,3) ne
      by auto
  qed
qed

lemma generate_key_pool_True:
  assumes "generate_key_pool cfg n [] g = (True, pool', g')"
  shows "[] \<notin> set pool'" and "n \<le> sum_list (map length pool')"
  using generate_key_pool_loop_nonempty [of cfg n 0 "[]" g pool' g'] assms
  by (simp_all add: generate_key_pool_def)

function get_key_from_pool_loop ::
  "bb84 \<Rightarrow> nat \<Rightarrow> int list \<Rightarrow> int list list \<Rightarrow> rng \<Rightarrow> (py_exc + int list) \<times> int list list \<times> rng" where
  "get_key_from_pool_loop cfg len result key_pool g =
     (if length result < len then
        (case (if key_pool = [] then generate_key_pool cfg (len - length result) key_pool g
               else (True, key_pool, g)) of
           (ok, key_pool1, g') \<Rightarrow>
             if \<not> ok then (Inl PyException, key_pool1, g')
             else (case key_pool1 of
                     [] \<Rightarrow> (Inl IndexError, key_pool1, g')
                   | current_key # rest \<Rightarrow>
                       (let needed = len - length result in
                        if length current_key \<le> needed
                        then get_key_from_pool_loop cfg len (result @ current_key) rest g'
                        else get_key_from_pool_loop cfg len (result @ take needed current_key)
                               (drop needed current_key # rest) g')))
      else (Inr result, key_pool, g))"
  by pat_completeness auto
termination
proof (relation "measures [\<lambda>(cfg, len, result, key_pool, g). len - length result,
    \<lambda>(cfg, len, result, key_pool, g). length key_pool]", goal_cases)
  case 1
  show ?case by simp
next
  case (2 cfg len result key_pool g ok rest1 key_pool1 g' current_key rest needed)
  show ?case
  proof (cases "key_pool = []")
    case True
    with 2 have "generate_key_pool cfg (len - length result) [] g = (True, current_key # rest, g')"
      by auto
    from generate_key_pool_True(1) [OF this] have "0 < length current_key" by auto
    with 2(1) have "len - (length result + length current_key) < len - length result"
      by arith
    then show ?thesis by simp
  next
    case False
    with 2 show ?thesis by (cases "current_key = []") auto
  qed
next
  case 3
  then show ?case by auto
qed

declare get_key_from_pool_loop.simps [simp del]

definition get_key_from_pool ::
  "bb84 \<Rightarrow> nat \<Rightarrow> int list list \<Rightarrow> rng \<Rightarrow> (py_exc + int list) \<times> int list list \<times> rng" where
  "get_key_from_pool cfg len key_pool g = get_key_from_pool_loop cfg len [] key_pool g"





fun draw_all ::
  "bb84 \<Rightarrow> nat list \<Rightarrow> int list list \<Rightarrow> rng \<Rightarrow> (py_exc + int list list) \<times> int list list \<times> rng" where
  "draw_all cfg [] key_pool g = (Inr [], key_pool, g)"
| "draw_all cfg (n # ns) key_pool g =
     (case get_key_from_pool cfg n key_pool g of
        (Inl e, key_pool1, g1) \<Rightarrow> (Inl e, key_pool1, g1)
      | (Inr k, key_pool1, g1) \<Rightarrow>
          (case draw_all cfg ns key_pool1 g1 of
             (Inl e, key_pool2, g2) \<Rightarrow> (Inl e, key_pool2, g2)
           | (Inr ks, key_pool2, g2) \<Rightarrow> (Inr (k # ks), key_pool2, g2)))"



lemma generate_key_loop_accept:
  "retry_count < max_retries \<Longrightarrow> \<not> validation_fails cfg (fst (run_attempt cfg g)) \<Longrightarrow>
   generate_key_loop cfg retry_count g =
     ((Some (sifted_key (fst (run_attempt cfg g))), error_rate (fst (run_attempt cfg g))),
      retry_count, snd (run_attempt cfg g))"
  by (subst generate_key_loop.simps)
     (auto simp: validation_fails_def split_def Let_def not_less)




definition tape3 :: rng where
  "tape3 = \<lparr>tape = (\<lambda>i. i mod 3 = 0), cursor = 0\<rparr>"


text \<open>
  Claim C2. In every attempt with at least one matched basis the error count is 0, so the
  error rate is 0 and the comparison with a non-negative threshold cannot fail.
\<close>
theorem matched_sample_has_no_errors:
  assumes "0 < total_matched (fst (run_attempt cfg g))"
  shows "errors (fst (run_attempt cfg g)) = 0
       \<and> error_rate (fst (run_attempt cfg g)) = 0
       \<and> (0 \<le> error_threshold cfg \<longrightarrow>
            error_rate (fst (run_attempt cfg g)) \<le> error_threshold cfg)"
  by (simp add: error_rate_def run_attempt_errors)

definition cfg_small :: bb84 where
  "cfg_small = \<lparr>error_threshold = 15 / 100, num_qubits = 4, min_key_length = 1,
     verification_bits = 1, noise_threshold = 95 / 100, chunk_size = 1000\<rparr>"

theorem matched_sample_has_no_errors_witness:
  "0 < total_matched (fst (run_attempt cfg_small tape3))
   \<and> errors (fst (run_attempt cfg_small tape3)) = 0
   \<and> error_rate (fst (run_attempt cfg_small tape3)) = 0
   \<and> 0 \<le> error_threshold cfg_small
   \<and> error_rate (fst (run_attempt cfg_small tape3)) \<le> error_threshold cfg_small"
proof -
  have h: "0 < total_matched (fst (run_attempt cfg_small tape3))"
    by code_simp
  have t: "0 \<le> error_threshold cfg_small"
    by (simp add: cfg_small_def)
  from matched_sample_has_no_errors [OF h] h t show ?thesis by simp
qed

text \<open>
  Claim C8. \<^verbatim>\<open>simulate_transmission\<close> returns the sender's bit with confidence 1 and leaves
  the random source alone when the bases are equal; otherwise it returns the next bit
  of the random source with confidence 1/2 and advances the source by one draw.
\<close>
theorem simulate_transmission_contract:
  "(s = r \<longrightarrow> simulate_transmission b s r g = ((b, 1), g))
   \<and> (s \<noteq> r \<longrightarrow>
        simulate_transmission b s r g = ((fst (secure_random g), 1 / 2), snd (secure_random g))
        \<and> fst (secure_random g) = (if tape g (cursor g) then 1 else 0)
        \<and> snd (secure_random g) = g\<lparr>cursor := cursor g + 1\<rparr>)"
  by (simp add: simulate_transmission_def secure_random_eq)

theorem simulate_transmission_contract_witness:
  "simulate_transmission 1 ''diagonal'' ''diagonal'' tape3 = ((1, 1), tape3)
   \<and> simulate_transmission 0 ''rectilinear'' ''diagonal'' tape3
       = ((1, 1 / 2), tape3\<lparr>cursor := 1\<rparr>)"
  using simulate_transmission_contract [of "''diagonal''" "''diagonal''" 1 tape3]
    simulate_transmission_contract [of "''rectilinear''" "''diagonal''" 0 tape3]
  by (simp add: tape3_def)


lemma get_key_from_pool_loop_enough:
  "len - length result \<le> length (concat key_pool) \<Longrightarrow>
   fst (get_key_from_pool_loop cfg len result key_pool g)
     = Inr (result @ take (len - length result) (concat key_pool))
   \<and> concat (fst (snd (get_key_from_pool_loop cfg len result key_pool g)))
     = drop (len - length result) (concat key_pool)
   \<and> snd (snd (get_key_from_pool_loop cfg len result key_pool g)) = g"
proof (induction cfg len result key_pool g rule: get_key_from_pool_loop.induct)
  case (1 cfg len result key_pool g)
  show ?case
  proof (cases "length result < len")
    case False
    then show ?thesis
      by (subst (1 2 3) get_key_from_pool_loop.simps) simp
  next
    case True
    with "1.prems" have ne: "key_pool \<noteq> []" by auto
    then obtain current_key rest where kp: "key_pool = current_key # rest"
      by (cases key_pool) auto
    show ?thesis
    proof (cases "length current_key \<le> len - length result")
      case le: True
      have step: "get_key_from_pool_loop cfg len result key_pool g
          = get_key_from_pool_loop cfg len (result @ current_key) rest g"
        using True le by (subst get_key_from_pool_loop.simps) (simp add: kp Let_def)
      have enough: "len - length (result @ current_key) \<le> length (concat rest)"
        using "1.prems" le by (simp add: kp)
      have sel: "(True, key_pool, g) =
          (if key_pool = [] then generate_key_pool cfg (len - length result) key_pool g
           else (True, key_pool, g))"
        using ne by simp
      have nn: "\<not> \<not> True" by simp
      from "1.IH"(1) [OF True sel refl nn kp refl le enough]
      show ?thesis
        using le True by (simp add: step [unfolded kp] kp)
    next
      case gt: False
      have step: "get_key_from_pool_loop cfg len result key_pool g
          = get_key_from_pool_loop cfg len (result @ take (len - length result) current_key)
              (drop (len - length result) current_key # rest) g"
        using True gt by (subst get_key_from_pool_loop.simps) (simp add: kp Let_def)
      have stop: "get_key_from_pool_loop cfg len (result @ take (len - length result) current_key)
              (drop (len - length result) current_key # rest) g
           = (Inr (result @ take (len - length result) current_key),
              drop (len - length result) current_key # rest, g)"
        using True gt by (subst get_key_from_pool_loop.simps) simp
      show ?thesis
        using gt True by (simp add: step [unfolded kp] stop kp)
    qed
  qed
qed

lemma get_key_from_pool_enough:
  assumes "n \<le> length (concat key_pool)"
  shows "\<exists>pool'. get_key_from_pool cfg n key_pool g = (Inr (take n (concat key_pool)), pool', g)
           \<and> concat pool' = drop n (concat key_pool)"
proof -
  obtain r pool' g' where eq: "get_key_from_pool_loop cfg n [] key_pool g = (r, pool', g')"
    by (cases "get_key_from_pool_loop cfg n [] key_pool g") auto
  from get_key_from_pool_loop_enough [of n "[]" key_pool cfg g] assms eq
  show ?thesis by (simp add: get_key_from_pool_def)
qed

lemma draw_all_enough:
  "sum_list sizes \<le> length (concat key_pool) \<Longrightarrow>
   \<exists>keys pool'. draw_all cfg sizes key_pool g = (Inr keys, pool', g)
      \<and> concat keys = take (sum_list sizes) (concat key_pool)
      \<and> map length keys = sizes
      \<and> concat pool' = drop (sum_list sizes) (concat key_pool)"
proof (induction sizes arbitrary: key_pool)
  case Nil
  show ?case by simp
next
  case (Cons n ns)
  from Cons.prems have n: "n \<le> length (concat key_pool)" by simp
  from get_key_from_pool_enough [OF n, of cfg g] obtain pool1 where
    first: "get_key_from_pool cfg n key_pool g = (Inr (take n (concat key_pool)), pool1, g)"
    and pool1: "concat pool1 = drop n (concat key_pool)" by blast
  from Cons.prems pool1 have "sum_list ns \<le> length (concat pool1)" by simp
  from Cons.IH [OF this] obtain keys pool2 where
    rest: "draw_all cfg ns pool1 g = (Inr keys, pool2, g)"
    and keys: "concat keys = take (sum_list ns) (concat pool1)"
    and lens: "map length keys = ns"
    and pool2: "concat pool2 = drop (sum_list ns) (concat pool1)" by blast
  have "concat (take n (concat key_pool) # keys) = take (n + sum_list ns) (concat key_pool)"
    by (simp add: keys pool1 take_add)
  moreover have "concat pool2 = drop (n + sum_list ns) (concat key_pool)"
    by (simp add: pool2 pool1 add.commute)
  ultimately show ?case
    using n by (simp add: first rest lens)
qed

lemma pool_head_whole:
  "0 < n \<Longrightarrow> length seg \<le> n \<Longrightarrow>
   get_key_from_pool cfg n (seg # rest) g = get_key_from_pool_loop cfg n seg rest g"
  unfolding get_key_from_pool_def
  by (subst get_key_from_pool_loop.simps) (simp add: Let_def)

lemma pool_head_split:
  assumes "0 < n" and "n < length seg"
  shows "get_key_from_pool cfg n (seg # rest) g = (Inr (take n seg), drop n seg # rest, g)"
proof -
  have "get_key_from_pool cfg n (seg # rest) g
      = get_key_from_pool_loop cfg n (take n seg) (drop n seg # rest) g"
    unfolding get_key_from_pool_def using assms
    by (subst get_key_from_pool_loop.simps) (simp add: Let_def)
  also have "\<dots> = (Inr (take n seg), drop n seg # rest, g)"
    using assms by (subst get_key_from_pool_loop.simps) simp
  finally show ?thesis .
qed

text \<open>
  Claim C3. Draws whose sizes sum to the number of bits in the pool return, concatenated,
  the concatenation of the segments in their order, leave no bit behind and never call
  the key generator. A head segment no longer than the need is consumed whole and
  popped; a longer head is split and its remainder replaces it.
\<close>
theorem key_pool_draws_in_order:
  "(sum_list sizes = length (concat key_pool) \<longrightarrow>
      (\<exists>keys pool'. draw_all cfg sizes key_pool g = (Inr keys, pool', g)
         \<and> concat keys = concat key_pool \<and> map length keys = sizes \<and> concat pool' = []))
   \<and> (0 < n \<and> length seg \<le> n \<longrightarrow>
        get_key_from_pool cfg n (seg # rest) g = get_key_from_pool_loop cfg n seg rest g)
   \<and> (0 < n \<and> n < length seg \<longrightarrow>
        get_key_from_pool cfg n (seg # rest) g = (Inr (take n seg), drop n seg # rest, g))"
proof (intro conjI impI)
  assume total: "sum_list sizes = length (concat key_pool)"
  then have "sum_list sizes \<le> length (concat key_pool)" by simp
  from draw_all_enough [OF this, of cfg g] total
  show "\<exists>keys pool'. draw_all cfg sizes key_pool g = (Inr keys, pool', g)
         \<and> concat keys = concat key_pool \<and> map length keys = sizes \<and> concat pool' = []"
    by auto
next
  assume "0 < n \<and> length seg \<le> n"
  then show "get_key_from_pool cfg n (seg # rest) g = get_key_from_pool_loop cfg n seg rest g"
    by (simp add: pool_head_whole)
next
  assume "0 < n \<and> n < length seg"
  then show "get_key_from_pool cfg n (seg # rest) g = (Inr (take n seg), drop n seg # rest, g)"
    by (simp add: pool_head_split)
qed

theorem key_pool_draws_in_order_witness:
  "sum_list [1, 2, 0, 2] = length (concat [[1, 0], [], [0, 1, 1 :: int]])
   \<and> draw_all cfg_small [1, 2, 0, 2] [[1, 0], [], [0, 1, 1]] tape3
       = (Inr [[1], [0, 0], [], [1, 1]], fst (snd (draw_all cfg_small [1, 2, 0, 2] [[1, 0], [], [0, 1, 1]] tape3)), tape3)
   \<and> concat (fst (snd (draw_all cfg_small [1, 2, 0, 2] [[1, 0], [], [0, 1, 1]] tape3))) = []
   \<and> fst (get_key_from_pool cfg_small 3 [[1, 0], [], [0, 1, 1]] tape3) = Inr [1, 0, 0]
   \<and> fst (snd (get_key_from_pool cfg_small 3 [[1, 0], [], [0, 1, 1]] tape3)) = [[1, 1]]
   \<and> get_key_from_pool cfg_small 2 [[0, 1, 1]] tape3 = (Inr [0, 1], [[1]], tape3)"
proof -
  have d: "fst (draw_all cfg_small [1, 2, 0, 2] [[1, 0], [], [0, 1, 1]] tape3)
       = Inr [[1], [0, 0], [], [1, 1]]"
    by code_simp
  have l1: "fst (get_key_from_pool_loop cfg_small 3 [1, 0] [[], [0, 1, 1]] tape3) = Inr [1, 0, 0]"
    by code_simp
  have l2: "fst (snd (get_key_from_pool_loop cfg_small 3 [1, 0] [[], [0, 1, 1]] tape3)) = [[1, 1]]"
    by code_simp
  have s: "sum_list [1, 2, 0, 2] = length (concat [[1, 0], [], [0, 1, 1 :: int]])"
    by simp
  from key_pool_draws_in_order [of "[1, 2, 0, 2]" "[[1, 0], [], [0, 1, 1]]" cfg_small tape3
      3 "[1, 0]" "[[], [0, 1, 1]]"] s
  obtain keys pool' where
    e: "draw_all cfg_small [1, 2, 0, 2] [[1, 0], [], [0, 1, 1]] tape3 = (Inr keys, pool', tape3)"
    and p: "concat pool' = []"
    and w: "get_key_from_pool cfg_small 3 [[1, 0], [], [0, 1, 1]] tape3
          = get_key_from_pool_loop cfg_small 3 [1, 0] [[], [0, 1, 1]] tape3"
    by auto
  from key_pool_draws_in_order [of "[]" "[]" cfg_small tape3 2 "[0, 1, 1]" "[]"]
  have sp: "get_key_from_pool cfg_small 2 [[0, 1, 1]] tape3 = (Inr [0, 1], [[1]], tape3)"
    by simp
  from d e have "keys = [[1], [0, 0], [], [1, 1]]" by simp
  with e p w l1 l2 sp s show ?thesis by simp
qed

section \<open>Python's text and numbers\<close>

type_synonym pystr = "nat list"

definition lit :: "string \<Rightarrow> pystr" where
  "lit s = map of_char s"

record pyenv =
  sha256 :: "nat list \<Rightarrow> nat list"
  pbkdf2_hmac_sha256 :: "nat list \<Rightarrow> nat list \<Rightarrow> nat \<Rightarrow> nat list"
  unicode_decimal :: "nat \<Rightarrow> nat option"
  max_str_digits :: nat

definition py_isspace :: "nat \<Rightarrow> bool" where
  "py_isspace c =
     ((9 \<le> c \<and> c \<le> 13) \<or> (28 \<le> c \<and> c \<le> 32) \<or> c = 133 \<or> c = 160 \<or> c = 5760
      \<or> (8192 \<le> c \<and> c \<le> 8202) \<or> c = 8232 \<or> c = 8233 \<or> c = 8239 \<or> c = 8287
      \<or> c = 12288)"

fun split_ws_acc :: "pystr \<Rightarrow> pystr \<Rightarrow> pystr list" where
  "split_ws_acc w [] = (if w = [] then [] else [w])"
| "split_ws_acc w (c # cs) =
     (if py_isspace c then (if w = [] then split_ws_acc [] cs else w # split_ws_acc [] cs)
      else split_ws_acc (w @ [c]) cs)"

definition py_split_ws :: "pystr \<Rightarrow> pystr list" where
  "py_split_ws s = split_ws_acc [] s"

fun py_join :: "'a list \<Rightarrow> 'a list list \<Rightarrow> 'a list" where
  "py_join sep [] = []"
| "py_join sep [x] = x"
| "py_join sep (x # y # ys) = x @ sep @ py_join sep (y # ys)"

function py_split_acc :: "'a list \<Rightarrow> 'a list \<Rightarrow> 'a list \<Rightarrow> 'a list list" where
  "py_split_acc sep cur s =
     (if s = [] then [cur]
      else if sep \<noteq> [] \<and> take (length sep) s = sep
           then cur # py_split_acc sep [] (drop (length sep) s)
           else py_split_acc sep (cur @ [hd s]) (tl s))"
  by pat_completeness auto
termination
  by (relation "measure (\<lambda>(sep, cur, s). length s)") auto

declare py_split_acc.simps [simp del]

definition py_split :: "'a list \<Rightarrow> 'a list \<Rightarrow> 'a list list" where
  "py_split sep s = py_split_acc sep [] s"

definition py_strip :: "pystr \<Rightarrow> pystr" where
  "py_strip s = rev (dropWhile py_isspace (rev (dropWhile py_isspace s)))"

definition py_isspace_str :: "pystr \<Rightarrow> bool" where
  "py_isspace_str s = (s \<noteq> [] \<and> list_all py_isspace s)"


subsection \<open>UTF-8\<close>

text \<open>\<^verbatim>\<open>str.encode('utf-8')\<close>: a surrogate code point cannot be encoded.\<close>

definition utf8_encode_char :: "nat \<Rightarrow> nat list option" where
  "utf8_encode_char c =
     (if c < 128 then Some [c]
      else if c < 2048 then Some [192 + c div 64, 128 + c mod 64]
      else if 55296 \<le> c \<and> c \<le> 57343 then None
      else if c < 65536 then Some [224 + c div 4096, 128 + c div 64 mod 64, 128 + c mod 64]
      else if c < 1114112
           then Some [240 + c div 262144, 128 + c div 4096 mod 64, 128 + c div 64 mod 64,
                      128 + c mod 64]
           else None)"

fun utf8_encode :: "pystr \<Rightarrow> py_exc + nat list" where
  "utf8_encode [] = Inr []"
| "utf8_encode (c # cs) =
     (case utf8_encode_char c of
        None \<Rightarrow> Inl UnicodeEncodeError
      | Some bs \<Rightarrow> (case utf8_encode cs of Inl e \<Rightarrow> Inl e | Inr r \<Rightarrow> Inr (bs @ r)))"

datatype errors_mode = Strict | Ignore

definition is_cont :: "nat \<Rightarrow> bool" where
  "is_cont b = (128 \<le> b \<and> b < 192)"

text \<open>The second byte of a three- or four-byte sequence has a range of its own after
  the lead bytes E0, ED, F0 and F4.\<close>

definition second_ok :: "nat \<Rightarrow> nat \<Rightarrow> bool" where
  "second_ok b0 b1 =
     (if b0 = 224 then 160 \<le> b1 \<and> b1 < 192
      else if b0 = 237 then 128 \<le> b1 \<and> b1 < 160
      else if b0 = 240 then 144 \<le> b1 \<and> b1 < 192
      else if b0 = 244 then 128 \<le> b1 \<and> b1 < 144
      else is_cont b1)"

definition emit :: "nat \<Rightarrow> py_exc + pystr \<Rightarrow> py_exc + pystr" where
  "emit c r = (case r of Inl e \<Rightarrow> Inl e | Inr s \<Rightarrow> Inr (c # s))"

text \<open>An undecodable stretch: \<^verbatim>\<open>errors='strict'\<close> raises, \<^verbatim>\<open>errors='ignore'\<close> drops it
  and goes on with the rest.\<close>

definition bad :: "errors_mode \<Rightarrow> py_exc + pystr \<Rightarrow> py_exc + pystr" where
  "bad m r = (case m of Strict \<Rightarrow> Inl UnicodeDecodeError | Ignore \<Rightarrow> r)"

text \<open>One step of the decoder at a lead byte \<open>b0\<close> followed by \<open>rest\<close>: a code point
  and the number of continuation bytes it took, or an undecodable stretch and the
  number of bytes of it after the lead byte. A sequence cut off by the end of the data
  is undecodable up to the end.\<close>

datatype utf8_step = Decoded nat nat | Undecodable nat

definition utf8_next :: "nat \<Rightarrow> nat list \<Rightarrow> utf8_step" where
  "utf8_next b0 rest =
     (if b0 < 128 then Decoded b0 0
      else if b0 < 194 \<or> 244 < b0 then Undecodable 0
      else if rest = [] then Undecodable 0
      else if b0 < 224 then
        (if is_cont (rest ! 0) then Decoded ((b0 - 192) * 64 + (rest ! 0 - 128)) 1
         else Undecodable 0)
      else if \<not> second_ok b0 (rest ! 0) then Undecodable 0
      else if length rest < 2 then Undecodable 1
      else if \<not> is_cont (rest ! 1) then Undecodable 1
      else if b0 < 240 then
        Decoded ((b0 - 224) * 4096 + (rest ! 0 - 128) * 64 + (rest ! 1 - 128)) 2
      else if length rest < 3 then Undecodable 2
      else if \<not> is_cont (rest ! 2) then Undecodable 2
      else Decoded ((b0 - 240) * 262144 + (rest ! 0 - 128) * 4096 + (rest ! 1 - 128) * 64
                    + (rest ! 2 - 128)) 3)"

fun utf8_decode :: "errors_mode \<Rightarrow> nat list \<Rightarrow> py_exc + pystr" where
  "utf8_decode m [] = Inr []"
| "utf8_decode m (b0 # rest) =
     (case utf8_next b0 rest of
        Decoded c k \<Rightarrow> emit c (utf8_decode m (drop k rest))
      | Undecodable k \<Rightarrow> bad m (utf8_decode m (drop k rest)))"

text \<open>\<^verbatim>\<open>bytes.decode('latin-1')\<close>: every byte is its own code point.\<close>

definition latin1_decode :: "nat list \<Rightarrow> pystr" where
  "latin1_decode bs = bs"

subsection \<open>Numbers to text\<close>

function to_base :: "nat \<Rightarrow> nat \<Rightarrow> nat list" where
  "to_base b n = (if b < 2 \<or> n < b then [n] else to_base b (n div b) @ [n mod b])"
  by pat_completeness auto
termination
  by (relation "measure (\<lambda>(b, n). n)") auto

declare to_base.simps [simp del]

definition digit_char :: "nat \<Rightarrow> nat" where
  "digit_char d = (if d < 10 then 48 + d else 87 + d)"

text \<open>\<^verbatim>\<open>format(n, '0Wb')\<close> and \<^verbatim>\<open>format(n, '0Wx')\<close> for \<open>n \<ge> 0\<close>: at least \<open>W\<close> digits.\<close>

definition py_format :: "nat \<Rightarrow> nat \<Rightarrow> nat \<Rightarrow> pystr" where
  "py_format width b n =
     (let ds = map digit_char (to_base b n) in replicate (width - length ds) 48 @ ds)"

text \<open>\<^verbatim>\<open>str(i)\<close> for an int. Since Python 3.11 the conversion raises ValueError when the
  number has more than 640 digits and more than \<^verbatim>\<open>sys.get_int_max_str_digits()\<close>
  (0 switches the limit off).\<close>

definition over_limit :: "pyenv \<Rightarrow> nat \<Rightarrow> bool" where
  "over_limit env digits = (640 < digits \<and> 0 < max_str_digits env \<and> max_str_digits env < digits)"

definition py_str :: "pyenv \<Rightarrow> int \<Rightarrow> pystr option" where
  "py_str env i =
     (let ds = map digit_char (to_base 10 (nat \<bar>i\<bar>)) in
      if over_limit env (length ds) then None
      else Some (if i < 0 then 45 # ds else ds))"

subsection \<open>Text to numbers\<close>

definition ascii_space :: "nat \<Rightarrow> bool" where
  "ascii_space c = ((9 \<le> c \<and> c \<le> 13) \<or> c = 32)"

definition digit_value :: "nat \<Rightarrow> nat" where
  "digit_value c =
     (if 48 \<le> c \<and> c \<le> 57 then c - 48
      else if 97 \<le> c \<and> c \<le> 122 then c - 87
      else if 65 \<le> c \<and> c \<le> 90 then c - 55
      else 37)"

text \<open>What \<^verbatim>\<open>int()\<close> does to a character before parsing: below 127 it stays, a Unicode
  space becomes a blank, a Unicode decimal digit becomes its ASCII digit, anything else
  becomes a question mark (which no number contains).\<close>

definition to_ascii :: "pyenv \<Rightarrow> nat \<Rightarrow> nat" where
  "to_ascii env c =
     (if c < 127 then c
      else if py_isspace c then 32
      else (case unicode_decimal env c of
              Some d \<Rightarrow> if d < 10 then 48 + d else 63
            | None \<Rightarrow> 63))"

definition skip_sign :: "pystr \<Rightarrow> bool \<times> pystr" where
  "skip_sign t =
     (case t of
        [] \<Rightarrow> (False, [])
      | c # r \<Rightarrow> if c = 43 then (False, r) else if c = 45 then (True, r) else (False, t))"

text \<open>The base prefix \<^verbatim>\<open>0b\<close>, \<^verbatim>\<open>0o\<close> or \<^verbatim>\<open>0x\<close> of the given base, and one underscore
  after it.\<close>

definition skip_prefix :: "nat \<Rightarrow> pystr \<Rightarrow> pystr" where
  "skip_prefix b t =
     (case t of
        c0 # c1 # r \<Rightarrow>
          if c0 = 48 \<and> ((b = 16 \<and> (c1 = 120 \<or> c1 = 88)) \<or> (b = 8 \<and> (c1 = 111 \<or> c1 = 79))
                         \<or> (b = 2 \<and> (c1 = 98 \<or> c1 = 66)))
          then (case r of c2 # r2 \<Rightarrow> if c2 = 95 then r2 else r | [] \<Rightarrow> r)
          else t
      | _ \<Rightarrow> t)"

text \<open>Underscores stand between digits only: none doubled, none last.\<close>

fun underscores_ok :: "pystr \<Rightarrow> bool" where
  "underscores_ok [] = True"
| "underscores_ok [c] = (c \<noteq> 95)"
| "underscores_ok (c # d # r) = (\<not> (c = 95 \<and> d = 95) \<and> underscores_ok (d # r))"

definition from_digits :: "nat \<Rightarrow> nat list \<Rightarrow> nat" where
  "from_digits b ds = foldl (\<lambda>acc d. acc * b + d) 0 ds"

text \<open>The digits after sign and prefix: a run of digits of the base and underscores, then
  blanks up to the end. For a base that is not a power of two the number of digits is
  limited as in \<open>py_str\<close>.\<close>

definition parse_digits :: "pyenv \<Rightarrow> nat \<Rightarrow> pystr \<Rightarrow> nat option" where
  "parse_digits env b t2 =
     (let is_part = (\<lambda>c. digit_value c < b \<or> c = 95);
          body = takeWhile is_part t2;
          rest = dropWhile is_part t2;
          digits = filter (\<lambda>c. c \<noteq> 95) body
      in if body \<noteq> [] \<and> hd body = 95 then None
         else if \<not> underscores_ok body then None
         else if digits = [] then None
         else if dropWhile ascii_space rest \<noteq> [] then None
         else if b \<noteq> 2 \<and> b \<noteq> 4 \<and> b \<noteq> 8 \<and> b \<noteq> 16 \<and> b \<noteq> 32 \<and> over_limit env (length digits)
              then None
         else Some (from_digits b (map digit_value digits)))"

text \<open>\<^verbatim>\<open>int(s, b)\<close> for a string: \<open>None\<close> is ValueError.\<close>

definition py_int :: "pyenv \<Rightarrow> nat \<Rightarrow> pystr \<Rightarrow> int option" where
  "py_int env b s =
     (let t = dropWhile ascii_space (map (to_ascii env) s);
          (negative, t1) = skip_sign t
      in case parse_digits env b (skip_prefix b t1) of
           None \<Rightarrow> None
         | Some v \<Rightarrow> Some (if negative then - int v else int v))"

definition env0 :: pyenv where
  "env0 = \<lparr>sha256 = (\<lambda>d. replicate 32 (sum_list d mod 256)),
           pbkdf2_hmac_sha256 = (\<lambda>p s n. map (\<lambda>i. (sum_list p + 3 * sum_list s + 7 * i) mod 256) [0..<32]),
           unicode_decimal = (\<lambda>c. None), max_str_digits = 4300\<rparr>"

subsection \<open>Splitting and joining\<close>

lemma py_split_acc_nil: "py_split_acc sep cur [] = [cur]"
  by (subst py_split_acc.simps) simp

lemma py_split_acc_skip:
  "s0 \<notin> set p \<Longrightarrow> py_split_acc (s0 # st) cur (p @ r) = py_split_acc (s0 # st) (cur @ p) r"
proof (induction p arbitrary: cur)
  case Nil
  show ?case by simp
next
  case (Cons c p)
  then have "c \<noteq> s0" by auto
  then have "py_split_acc (s0 # st) cur ((c # p) @ r) = py_split_acc (s0 # st) (cur @ [c]) (p @ r)"
    by (subst py_split_acc.simps) auto
  with Cons show ?case by simp
qed

lemma py_split_acc_sep:
  "sep \<noteq> [] \<Longrightarrow> py_split_acc sep cur (sep @ r) = cur # py_split_acc sep [] r"
  by (subst py_split_acc.simps) simp

lemma py_split_join:
  "parts \<noteq> [] \<Longrightarrow> \<forall>p\<in>set parts. s0 \<notin> set p \<Longrightarrow>
   py_split (s0 # st) (py_join (s0 # st) parts) = parts"
proof (induction "s0 # st" parts rule: py_join.induct)
  case 1
  then show ?case by simp
next
  case (2 x)
  then show ?case
    using py_split_acc_skip [of s0 x st "[]" "[]"] by (simp add: py_split_def py_split_acc_nil)
next
  case (3 x y ys)
  have "py_split_acc (s0 # st) [] (x @ (s0 # st) @ py_join (s0 # st) (y # ys))
      = x # py_split_acc (s0 # st) [] (py_join (s0 # st) (y # ys))"
    using py_split_acc_skip [of s0 x st "[]" "(s0 # st) @ py_join (s0 # st) (y # ys)"]
      py_split_acc_sep [of "s0 # st" x "py_join (s0 # st) (y # ys)"] "3.prems"
    by simp
  with 3 show ?case by (simp add: py_split_def)
qed

lemma py_split_acc_char:
  "c \<notin> set cur \<Longrightarrow>
   py_split_acc [c] cur s \<noteq> [] \<and> (\<forall>p\<in>set (py_split_acc [c] cur s). c \<notin> set p)"
proof (induction "[c]" cur s rule: py_split_acc.induct)
  case (1 cur s)
  show ?case
  proof (cases "s = []")
    case True
    with 1 show ?thesis by (simp add: py_split_acc_nil)
  next
    case False
    then obtain a r where s: "s = a # r" by (cases s) auto
    show ?thesis
    proof (cases "a = c")
      case True
      then have "py_split_acc [c] cur s = cur # py_split_acc [c] [] r"
        by (subst py_split_acc.simps) (simp add: s)
      with 1 s True show ?thesis by simp
    next
      case neq: False
      then have "py_split_acc [c] cur s = py_split_acc [c] (cur @ [a]) r"
        by (subst py_split_acc.simps) (simp add: s)
      with 1 s neq show ?thesis by simp
    qed
  qed
qed

lemma py_split_char:
  "py_split [c] s \<noteq> []" "\<forall>p\<in>set (py_split [c] s). c \<notin> set p"
  using py_split_acc_char [of c "[]" s] by (simp_all add: py_split_def)

lemma split_ws_acc_skip:
  "\<forall>c\<in>set u. \<not> py_isspace c \<Longrightarrow> split_ws_acc w (u @ r) = split_ws_acc (w @ u) r"
  by (induction u arbitrary: w) simp_all

lemma split_ws_acc_words:
  "\<forall>c\<in>set w. \<not> py_isspace c \<Longrightarrow> p \<in> set (split_ws_acc w s) \<Longrightarrow>
   p \<noteq> [] \<and> (\<forall>c\<in>set p. \<not> py_isspace c) \<and> set p \<subseteq> set w \<union> set s"
proof (induction w s rule: split_ws_acc.induct)
  case (1 w)
  then show ?case by (simp split: if_splits)
next
  case (2 w c cs)
  show ?case
  proof (cases "py_isspace c")
    case sp: True
    show ?thesis
    proof (cases "w = []")
      case True
      with sp "2.prems" have "p \<in> set (split_ws_acc [] cs)" by simp
      from "2.IH"(1) [OF sp True _ this] show ?thesis by auto
    next
      case False
      with sp "2.prems" have "p = w \<or> p \<in> set (split_ws_acc [] cs)" by simp
      then show ?thesis
      proof
        assume "p = w"
        with False "2.prems"(1) show ?thesis by auto
      next
        assume "p \<in> set (split_ws_acc [] cs)"
        from "2.IH"(2) [OF sp False _ this] show ?thesis by auto
      qed
    qed
  next
    case False
    with "2.prems" have in': "p \<in> set (split_ws_acc (w @ [c]) cs)" by simp
    have "\<forall>c\<in>set (w @ [c]). \<not> py_isspace c" using False "2.prems"(1) by simp
    from "2.IH"(3) [OF False this in'] show ?thesis by auto
  qed
qed

lemma py_split_ws_words:
  "p \<in> set (py_split_ws s) \<Longrightarrow>
   p \<noteq> [] \<and> (\<forall>c\<in>set p. \<not> py_isspace c) \<and> set p \<subseteq> set s"
  using split_ws_acc_words [of "[]" p s] by (simp add: py_split_ws_def)

lemma py_isspace_32: "py_isspace 32"
  by (simp add: py_isspace_def)

lemma py_split_ws_join:
  "\<forall>p\<in>set ws. p \<noteq> [] \<and> (\<forall>c\<in>set p. \<not> py_isspace c) \<Longrightarrow>
   py_split_ws (py_join [32] ws) = ws"
proof (induction "[32::nat]" ws rule: py_join.induct)
  case 1
  show ?case by (simp add: py_split_ws_def)
next
  case (2 x)
  then show ?case
    using split_ws_acc_skip [of x "[]" "[]"] by (simp add: py_split_ws_def)
next
  case (3 x y ys)
  have "split_ws_acc [] (x @ 32 # py_join [32] (y # ys))
      = x # split_ws_acc [] (py_join [32] (y # ys))"
    using split_ws_acc_skip [of x "[]" "32 # py_join [32] (y # ys)"] "3.prems"
    by (simp add: py_isspace_32)
  with 3 show ?case by (simp add: py_split_ws_def)
qed

lemma set_py_join: "set (py_join sep xs) \<subseteq> set sep \<union> \<Union> (set ` set xs)"
  by (induction sep xs rule: py_join.induct) auto

subsection \<open>Digits\<close>

lemma from_digits_snoc: "from_digits b (ds @ [d]) = from_digits b ds * b + d"
  by (simp add: from_digits_def)

lemma from_digits_zeros: "from_digits b (replicate k 0 @ ds) = from_digits b ds"
proof -
  have "foldl (\<lambda>acc d. acc * b + d) 0 (replicate k 0) = 0"
    by (induction k) simp_all
  then show ?thesis by (simp add: from_digits_def)
qed

lemma to_base_small: "n < b \<Longrightarrow> to_base b n = [n]"
  by (subst to_base.simps) simp

lemma to_base_step: "2 \<le> b \<Longrightarrow> b \<le> n \<Longrightarrow> to_base b n = to_base b (n div b) @ [n mod b]"
  by (subst to_base.simps) simp

lemma to_base_props:
  "2 \<le> b \<Longrightarrow> to_base b n \<noteq> [] \<and> (\<forall>d\<in>set (to_base b n). d < b) \<and> from_digits b (to_base b n) = n"
proof (induction b n rule: to_base.induct)
  case (1 b n)
  show ?case
  proof (cases "n < b")
    case True
    then show ?thesis by (simp add: to_base_small from_digits_def)
  next
    case False
    with "1.prems" have step: "to_base b n = to_base b (n div b) @ [n mod b]"
      by (simp add: to_base_step)
    from False "1.prems" have "\<not> (b < 2 \<or> n < b)" by simp
    from "1.IH" [OF this "1.prems"] "1.prems" show ?thesis
      by (simp add: step from_digits_snoc)
  qed
qed

lemma length_to_base: "2 \<le> b \<Longrightarrow> n < b ^ w \<Longrightarrow> 0 < w \<Longrightarrow> length (to_base b n) \<le> w"
proof (induction b n arbitrary: w rule: to_base.induct)
  case (1 b n)
  show ?case
  proof (cases "n < b")
    case True
    with "1.prems" show ?thesis by (simp add: to_base_small)
  next
    case False
    with "1.prems" have step: "to_base b n = to_base b (n div b) @ [n mod b]"
      by (simp add: to_base_step)
    from False "1.prems" have nb: "\<not> (b < 2 \<or> n < b)" by simp
    obtain v where w: "w = Suc v" using "1.prems"(3) by (cases w) auto
    have "v \<noteq> 0"
    proof
      assume "v = 0"
      with w "1.prems"(2) False show False by simp
    qed
    then have v: "0 < v" by simp
    have "n div b < b ^ v"
      using "1.prems"(1,2) w by (simp add: less_mult_imp_div_less mult.commute)
    from "1.IH" [OF nb "1.prems"(1) this v] show ?thesis
      by (simp add: step w)
  qed
qed

lemma digit_value_digit_char: "d < 36 \<Longrightarrow> digit_value (digit_char d) = d"
  by (auto simp: digit_value_def digit_char_def)

lemma digit_char_ascii: "d < 36 \<Longrightarrow> digit_char d < 127"
  by (auto simp: digit_char_def)

text \<open>The characters of a run of digits in a base up to 36.\<close>

definition digits_of_base :: "nat \<Rightarrow> pystr \<Rightarrow> bool" where
  "digits_of_base b ds = (\<forall>c\<in>set ds. c < 127 \<and> digit_value c < b)"

lemma digit_value_lt_36: "digit_value c < 37 \<Longrightarrow> c \<noteq> 95 \<and> \<not> ascii_space c \<and> c \<noteq> 43 \<and> c \<noteq> 45"
  by (auto simp: digit_value_def ascii_space_def split: if_splits)

lemma underscores_ok_none: "95 \<notin> set ds \<Longrightarrow> underscores_ok ds"
  by (induction ds rule: underscores_ok.induct) auto

lemma parse_digits_run:
  assumes "ds \<noteq> []" and "digits_of_base b ds" and "b \<le> 36"
    and "b = 2 \<or> b = 16 \<or> \<not> over_limit env (length ds)"
  shows "parse_digits env b ds = Some (from_digits b (map digit_value ds))"
proof -
  have part: "\<forall>c\<in>set ds. digit_value c < b \<or> c = 95"
    using assms(2) by (simp add: digits_of_base_def)
  have no_us: "95 \<notin> set ds"
  proof
    assume "95 \<in> set ds"
    with assms(2) have "digit_value 95 < b" by (simp add: digits_of_base_def)
    with assms(3) show False by (simp add: digit_value_def)
  qed
  have tw: "takeWhile (\<lambda>c. digit_value c < b \<or> c = 95) ds = ds"
    using part by simp
  have dw: "dropWhile (\<lambda>c. digit_value c < b \<or> c = 95) ds = []"
    using part by simp
  have flt: "filter (\<lambda>c. c \<noteq> 95) ds = ds"
    using no_us by (simp add: filter_id_conv) metis
  have hd_ok: "hd ds \<noteq> 95"
    using no_us assms(1) by (cases ds) auto
  show ?thesis
    unfolding parse_digits_def Let_def tw dw flt
    using assms(1,4) hd_ok underscores_ok_none [OF no_us] by auto
qed

lemma skip_prefix_digits:
  assumes "digits_of_base b ds"
  shows "skip_prefix b ds = ds"
proof (cases ds)
  case Nil
  then show ?thesis by (simp add: skip_prefix_def)
next
  case (Cons c0 r)
  show ?thesis
  proof (cases r)
    case Nil
    with Cons show ?thesis by (simp add: skip_prefix_def)
  next
    case (Cons c1 r1)
    with assms \<open>ds = c0 # r\<close> have "digit_value c1 < b"
      by (simp add: digits_of_base_def)
    then have "\<not> ((b = 16 \<and> (c1 = 120 \<or> c1 = 88)) \<or> (b = 8 \<and> (c1 = 111 \<or> c1 = 79))
                         \<or> (b = 2 \<and> (c1 = 98 \<or> c1 = 66)))"
      by (auto simp: digit_value_def)
    with Cons \<open>ds = c0 # r\<close> show ?thesis by (auto simp: skip_prefix_def)
  qed
qed

lemma to_ascii_id: "c < 127 \<Longrightarrow> to_ascii env c = c"
  by (simp add: to_ascii_def)

lemma py_int_run:
  assumes "ds \<noteq> []" and "digits_of_base b ds" and "b \<le> 36"
    and "b = 2 \<or> b = 16 \<or> \<not> over_limit env (length ds)"
  shows "py_int env b ds = Some (int (from_digits b (map digit_value ds)))"
    and "py_int env b (45 # ds) = Some (- int (from_digits b (map digit_value ds)))"
proof -
  obtain c r where ds: "ds = c # r" using assms(1) by (cases ds) auto
  have asc: "map (to_ascii env) ds = ds"
    using assms(2) by (simp add: digits_of_base_def to_ascii_id map_idI)
  have c: "\<not> ascii_space c \<and> c \<noteq> 43 \<and> c \<noteq> 45"
    using assms(2,3) ds digit_value_lt_36 [of c] by (simp add: digits_of_base_def)
  have dw: "dropWhile ascii_space ds = ds"
    using c ds by simp
  have sg: "skip_sign ds = (False, ds)"
    using c ds by (simp add: skip_sign_def)
  show "py_int env b ds = Some (int (from_digits b (map digit_value ds)))"
    by (simp add: py_int_def asc dw sg skip_prefix_digits [OF assms(2)]
        parse_digits_run [OF assms])
  have ns: "\<not> ascii_space 45" by (simp add: ascii_space_def)
  then have dw': "dropWhile ascii_space (45 # ds) = 45 # ds" by simp
  have sg': "skip_sign (45 # ds) = (True, ds)" by (simp add: skip_sign_def)
  show "py_int env b (45 # ds) = Some (- int (from_digits b (map digit_value ds)))"
    by (simp add: py_int_def asc to_ascii_id ns sg' skip_prefix_digits [OF assms(2)]
        parse_digits_run [OF assms])
qed

section \<open>The text codec of EnhancedQKDSimulator\<close>

text \<open>The first four lines of \<^verbatim>\<open>text_to_binary\<close> (and the last four of \<^verbatim>\<open>binary_to_text\<close>):
  every line, split at whitespace and joined with single blanks; the lines joined with
  line feeds.\<close>

definition normalize_line :: "pystr \<Rightarrow> pystr" where
  "normalize_line line = py_join [32] (py_split_ws line)"

definition normalize_text :: "pystr \<Rightarrow> pystr" where
  "normalize_text text = py_join [10] (map normalize_line (py_split [10] text))"

definition text_to_binary :: "pystr \<Rightarrow> pystr option" where
  "text_to_binary text =
     (let normalized_text = normalize_text text in
      case utf8_encode normalized_text of
        Inl e \<Rightarrow> None
      | Inr text_bytes \<Rightarrow>
          (let binary_chunks = map (py_format 8 2) text_bytes;
               message_bits = concat binary_chunks;
               length_bits = py_format 32 2 (length message_bits)
           in Some (length_bits @ message_bits)))"

text \<open>\<^verbatim>\<open>s[start:stop]\<close>: a negative index counts from the end, and both are clipped.\<close>

definition py_slice :: "'a list \<Rightarrow> int \<Rightarrow> int \<Rightarrow> 'a list" where
  "py_slice s start stop =
     (let n = int (length s);
          lo = (if start < 0 then max 0 (start + n) else min start n);
          hi = (if stop < 0 then max 0 (stop + n) else min stop n)
      in if lo < hi then take (nat (hi - lo)) (drop (nat lo) s) else [])"

text \<open>\<^verbatim>\<open>[s[i:i+n] for i in range(0, len(s), n)]\<close> for \<open>n > 0\<close>.\<close>

function chunks_of :: "nat \<Rightarrow> 'a list \<Rightarrow> 'a list list" where
  "chunks_of n s = (if n = 0 \<or> s = [] then [] else take n s # chunks_of n (drop n s))"
  by pat_completeness auto
termination
  by (relation "measure (\<lambda>(n, s). length s)") auto

declare chunks_of.simps [simp del]

text \<open>The body of \<^verbatim>\<open>for chunk in byte_chunks\<close>: a chunk that does not parse is skipped,
  and so is a negative value (\<^verbatim>\<open>bytearray.append\<close> raises ValueError, which the same
  handler catches).\<close>

definition append_byte :: "pyenv \<Rightarrow> nat list \<Rightarrow> pystr \<Rightarrow> nat list" where
  "append_byte env bytes_data chunk =
     (if length chunk = 8 then
        (case py_int env 2 chunk of
           None \<Rightarrow> bytes_data
         | Some byte_val \<Rightarrow>
             if byte_val < 256
             then (if 0 \<le> byte_val then bytes_data @ [nat byte_val] else bytes_data)
             else bytes_data)
      else bytes_data)"

text \<open>From the padding of \<^verbatim>\<open>message_bits\<close> to the filled \<^verbatim>\<open>bytes_data\<close>.\<close>

definition bytes_of_bits :: "pyenv \<Rightarrow> pystr \<Rightarrow> nat list" where
  "bytes_of_bits env message_bits =
     (let padded = (if length message_bits mod 8 \<noteq> 0
                    then message_bits @ replicate (8 - length message_bits mod 8) 48
                    else message_bits);
          byte_chunks = chunks_of 8 padded
      in foldl (append_byte env) [] byte_chunks)"

text \<open>The inner \<^verbatim>\<open>try\<close>: decode as UTF-8 ignoring errors and normalise; on
  UnicodeDecodeError decode as Latin-1.\<close>

definition decode_bytes :: "nat list \<Rightarrow> pystr" where
  "decode_bytes bytes_data =
     (case utf8_decode Ignore bytes_data of
        Inr decoded \<Rightarrow> normalize_text decoded
      | Inl e \<Rightarrow> latin1_decode bytes_data)"

definition binary_to_text :: "pyenv \<Rightarrow> pystr \<Rightarrow> pystr option" where
  "binary_to_text env binary =
     (case py_int env 2 (take 32 binary) of
        None \<Rightarrow> None
      | Some message_length \<Rightarrow>
          (let message_bits = py_slice binary 32 (32 + message_length)
           in Some (decode_bytes (bytes_of_bits env message_bits))))"

subsection \<open>Normalisation\<close>

lemma normalize_line_words:
  "normalize_line (normalize_line l) = normalize_line l"
proof -
  have "py_split_ws (py_join [32] (py_split_ws l)) = py_split_ws l"
    by (rule py_split_ws_join) (use py_split_ws_words in blast)
  then show ?thesis by (simp add: normalize_line_def)
qed

lemma set_normalize_line: "set (normalize_line l) \<subseteq> set l \<union> {32}"
proof -
  have "\<Union> (set ` set (py_split_ws l)) \<subseteq> set l"
    using py_split_ws_words by blast
  with set_py_join [of "[32]" "py_split_ws l"] show ?thesis
    by (auto simp: normalize_line_def)
qed

lemma normalize_text_idem: "normalize_text (normalize_text T) = normalize_text T"
proof -
  let ?ls = "map normalize_line (py_split [10] T)"
  have ne: "?ls \<noteq> []" using py_split_char(1) [of 10 T] by simp
  have "\<forall>p\<in>set ?ls. 10 \<notin> set p"
  proof
    fix p assume "p \<in> set ?ls"
    then obtain l where l: "l \<in> set (py_split [10] T)" and p: "p = normalize_line l" by auto
    from l py_split_char(2) [of 10 T] have "10 \<notin> set l" by blast
    with set_normalize_line [of l] show "10 \<notin> set p" by (auto simp: p)
  qed
  from py_split_join [OF ne this, of "[]"] have "py_split [10] (py_join [10] ?ls) = ?ls" .
  moreover have "map normalize_line ?ls = ?ls"
    by (simp add: normalize_line_words)
  ultimately show ?thesis
    by (simp only: normalize_text_def)
qed

lemma set_normalize_text: "set (normalize_text T) \<subseteq> set T \<union> {10, 32}"
proof -
  have sub: "\<forall>l\<in>set (py_split [10] T). set l \<subseteq> set T"
  proof -
    have "\<And>cur s. \<forall>l\<in>set (py_split_acc [10::nat] cur s). set l \<subseteq> set cur \<union> set s"
    proof -
      fix cur s
      show "\<forall>l\<in>set (py_split_acc [10::nat] cur s). set l \<subseteq> set cur \<union> set s"
      proof (induction "[10::nat]" cur s rule: py_split_acc.induct)
        case (1 cur s)
        show ?case
        proof (cases s)
          case Nil
          then show ?thesis by (simp add: py_split_acc_nil)
        next
          case (Cons a r)
          show ?thesis
          proof (cases "a = 10")
            case True
            then have "py_split_acc [10] cur s = cur # py_split_acc [10] [] r"
              by (subst py_split_acc.simps) (simp add: Cons)
            with 1 Cons True show ?thesis by auto
          next
            case False
            then have "py_split_acc [10] cur s = py_split_acc [10] (cur @ [a]) r"
              by (subst py_split_acc.simps) (simp add: Cons)
            with 1 Cons False show ?thesis by auto
          qed
        qed
      qed
    qed
    from this [of "[]" T] show ?thesis by (simp add: py_split_def)
  qed
  have "\<Union> (set ` set (map normalize_line (py_split [10] T))) \<subseteq> set T \<union> {32}"
    using sub set_normalize_line by fastforce
  with set_py_join [of "[10]" "map normalize_line (py_split [10] T)"] show ?thesis
    by (auto simp: normalize_text_def)
qed

subsection \<open>UTF-8 round trip\<close>

lemma utf8_next_encoded:
  assumes "utf8_encode_char c = Some (b0 # bs)"
  shows "utf8_next b0 (bs @ r) = Decoded c (length bs)"
proof -
  define q1 where "q1 = c div 64"
  define q2 where "q2 = q1 div 64"
  define q3 where "q3 = q2 div 64"
  define d0 where "d0 = c mod 64"
  define d1 where "d1 = q1 mod 64"
  define d2 where "d2 = q2 mod 64"
  have c: "c = q1 * 64 + d0" and q1: "q1 = q2 * 64 + d1" and q2: "q2 = q3 * 64 + d2"
    and d: "d0 < 64" "d1 < 64" "d2 < 64"
    by (simp_all add: q1_def q2_def q3_def d0_def d1_def d2_def)
  have e1: "c div 4096 = q2"
    using div_mult2_eq [of c 64 64] by (simp add: q1_def q2_def)
  have e2: "c div 262144 = q3"
    using div_mult2_eq [of c 4096 64] by (simp add: e1 q3_def)
  have e3: "c div 64 mod 64 = d1" "c div 4096 mod 64 = d2" "c mod 64 = d0" "c div 64 = q1"
    "q1 mod 64 = d1" "q2 mod 64 = d2"
    by (simp_all add: e1 d1_def d2_def d0_def q1_def)
  consider "c < 128" | "128 \<le> c" "c < 2048" | "2048 \<le> c" "c < 65536" "\<not> (55296 \<le> c \<and> c \<le> 57343)"
    | "65536 \<le> c" "c < 1114112"
    using assms by (auto simp: utf8_encode_char_def split: if_splits)
  then show ?thesis
  proof cases
    case 1
    with assms show ?thesis by (auto simp: utf8_encode_char_def utf8_next_def)
  next
    case 2
    with assms have b: "b0 = 192 + q1" "bs = [128 + d0]"
      by (auto simp: utf8_encode_char_def e3)
    from 2 c d have "2 \<le> q1" "q1 < 32" by arith+
    moreover have "q1 * 64 + d0 = c" using c by simp
    ultimately show ?thesis
      using d by (simp add: b utf8_next_def is_cont_def)
  next
    case 3
    with assms have b: "b0 = 224 + q2" "bs = [128 + d1, 128 + d0]"
      by (auto simp: utf8_encode_char_def e1 e3)
    from 3 c q1 d have hi: "q2 < 16" by arith
    from 3 c q1 d have lo: "q2 = 0 \<Longrightarrow> 32 \<le> d1" by arith
    from 3 c q1 d have sur: "q2 = 13 \<Longrightarrow> d1 < 32" by arith
    have val: "q2 * 4096 + d1 * 64 + d0 = c" using c q1 by simp
    show ?thesis
      using hi lo sur val d
      by (simp add: b utf8_next_def is_cont_def second_ok_def)
  next
    case 4
    with assms have b: "b0 = 240 + q3" "bs = [128 + d2, 128 + d1, 128 + d0]"
      by (auto simp: utf8_encode_char_def e1 e2 e3)
    from 4 c q1 q2 d have hi: "q3 \<le> 4" by arith
    from 4 c q1 q2 d have lo: "q3 = 0 \<Longrightarrow> 16 \<le> d2" by arith
    from 4 c q1 q2 d have top: "q3 = 4 \<Longrightarrow> d2 < 16" by arith
    have val: "q3 * 262144 + d2 * 4096 + d1 * 64 + d0 = c" using c q1 q2 by simp
    show ?thesis
      using hi lo top val d
      by (simp add: b utf8_next_def is_cont_def second_ok_def)
  qed
qed

lemma utf8_encode_char_nonempty: "utf8_encode_char c = Some bs \<Longrightarrow> bs \<noteq> []"
  by (auto simp: utf8_encode_char_def split: if_splits)

lemma utf8_encode_char_bytes: "utf8_encode_char c = Some bs \<Longrightarrow> \<forall>b\<in>set bs. b < 256"
proof -
  assume a: "utf8_encode_char c = Some bs"
  have "c mod 64 < 64" "c div 64 mod 64 < 64" "c div 4096 mod 64 < 64" by simp_all
  moreover have "c < 2048 \<Longrightarrow> c div 64 < 32" "c < 65536 \<Longrightarrow> c div 4096 < 16"
    "c < 1114112 \<Longrightarrow> c div 262144 < 5" by auto
  ultimately show ?thesis
    using a by (auto simp: utf8_encode_char_def split: if_splits)
qed

lemma utf8_roundtrip: "utf8_encode s = Inr bs \<Longrightarrow> utf8_decode m bs = Inr s"
proof (induction s arbitrary: bs)
  case Nil
  then show ?case by simp
next
  case (Cons c cs)
  from Cons.prems obtain cb r where cb: "utf8_encode_char c = Some cb"
    and r: "utf8_encode cs = Inr r" and bs: "bs = cb @ r"
    by (auto split: option.splits sum.splits)
  from utf8_encode_char_nonempty [OF cb] obtain b0 tl where t: "cb = b0 # tl"
    by (cases cb) auto
  from utf8_next_encoded [OF cb [unfolded t], of r] Cons.IH [OF r]
  show ?case by (simp add: bs t emit_def)
qed

lemma utf8_encode_bytes: "utf8_encode s = Inr bs \<Longrightarrow> \<forall>b\<in>set bs. b < 256"
proof (induction s arbitrary: bs)
  case Nil
  then show ?case by simp
next
  case (Cons c cs)
  from Cons.prems obtain cb r where cb: "utf8_encode_char c = Some cb"
    and r: "utf8_encode cs = Inr r" and bs: "bs = cb @ r"
    by (auto split: option.splits sum.splits)
  from utf8_encode_char_bytes [OF cb] Cons.IH [OF r] show ?case by (auto simp: bs)
qed

lemma utf8_encode_ok:
  "\<forall>c\<in>set s. utf8_encode_char c \<noteq> None \<Longrightarrow> \<exists>bs. utf8_encode s = Inr bs"
  by (induction s) auto

text \<open>With \<^verbatim>\<open>errors='ignore'\<close> the decoder has no way to raise.\<close>

lemma utf8_decode_ignore_any: "m = Ignore \<Longrightarrow> \<exists>s. utf8_decode m bs = Inr s"
proof (induction m bs rule: utf8_decode.induct)
  case (1 m)
  show ?case by simp
next
  case (2 m b0 rest)
  show ?case
  proof (cases "utf8_next b0 rest")
    case (Decoded c k)
    with "2.IH"(1) [OF Decoded "2.prems"] show ?thesis by (auto simp: emit_def)
  next
    case (Undecodable k)
    with "2.IH"(2) [OF Undecodable "2.prems"] "2.prems" show ?thesis by (auto simp: bad_def)
  qed
qed

lemma utf8_decode_ignore_total: "\<exists>s. utf8_decode Ignore bs = Inr s"
  by (rule utf8_decode_ignore_any) simp

lemma utf8_decode_strict_raises: "utf8_decode Strict [255] = Inl UnicodeDecodeError"
  by (simp add: utf8_next_def bad_def)

subsection \<open>Bits of bytes\<close>

lemma py_format_bits:
  assumes "n < 2 ^ w" and "0 < w"
  shows "length (py_format w 2 n) = w"
    and "digits_of_base 2 (py_format w 2 n)"
    and "py_int env 2 (py_format w 2 n) = Some (int n)"
proof -
  let ?tb = "to_base 2 n"
  from to_base_props [of 2 n] have tb: "?tb \<noteq> []" "\<forall>d\<in>set ?tb. d < 2" "from_digits 2 ?tb = n"
    by simp_all
  from length_to_base [of 2 n w] assms have len: "length ?tb \<le> w" by simp
  show l: "length (py_format w 2 n) = w"
    using len by (simp add: py_format_def Let_def)
  have dv: "map digit_value (map digit_char ?tb) = ?tb"
    using tb(2) by (auto simp: digit_value_digit_char intro!: map_idI)
  have asc: "\<forall>c\<in>set (map digit_char ?tb). c < 127 \<and> digit_value c < 2"
    using tb(2) by (auto simp: digit_value_digit_char digit_char_ascii)
  have dv48: "digit_value 48 = 0" by (simp add: digit_value_def)
  show dob: "digits_of_base 2 (py_format w 2 n)"
    using asc dv48 by (auto simp: py_format_def Let_def digits_of_base_def)
  have "map digit_value (py_format w 2 n) = replicate (w - length ?tb) 0 @ ?tb"
    using dv dv48 by (simp add: py_format_def Let_def)
  then have val: "from_digits 2 (map digit_value (py_format w 2 n)) = n"
    by (simp add: from_digits_zeros tb(3))
  have ne: "py_format w 2 n \<noteq> []" using l assms(2) by auto
  from py_int_run(1) [OF ne dob, of env] val
  show "py_int env 2 (py_format w 2 n) = Some (int n)" by simp
qed

lemma chunks_of_nil: "chunks_of n [] = []"
  by (subst chunks_of.simps) simp

lemma chunks_of_concat:
  "0 < n \<Longrightarrow> \<forall>x\<in>set xs. length x = n \<Longrightarrow> chunks_of n (concat xs) = xs"
proof (induction xs)
  case Nil
  show ?case by (simp add: chunks_of_nil)
next
  case (Cons x xs)
  then have "x \<noteq> []" by auto
  with Cons.prems have "chunks_of n (x @ concat xs) = x # chunks_of n (concat xs)"
    by (subst chunks_of.simps) simp
  with Cons show ?case by simp
qed

lemma append_byte_format:
  "b < 256 \<Longrightarrow> append_byte env acc (py_format 8 2 b) = acc @ [b]"
  using py_format_bits(1) [of b 8] py_format_bits(3) [of b 8 env] by (simp add: append_byte_def)

lemma foldl_append_byte:
  "\<forall>b\<in>set bs. b < 256 \<Longrightarrow>
   foldl (append_byte env) acc (map (py_format 8 2) bs) = acc @ bs"
  by (induction bs arbitrary: acc) (simp_all add: append_byte_format)

lemma bytes_of_bits_format:
  assumes "\<forall>b\<in>set bs. b < 256"
  shows "bytes_of_bits env (concat (map (py_format 8 2) bs)) = bs"
proof -
  have len8: "\<forall>x\<in>set (map (py_format 8 2) bs). length x = 8"
    using assms py_format_bits(1) [of _ 8] by auto
  have "length (concat (map (py_format 8 2) bs)) = 8 * length bs"
    using len8 by (induction bs) auto
  then have nopad: "length (concat (map (py_format 8 2) bs)) mod 8 = 0" by simp
  show ?thesis
    unfolding bytes_of_bits_def Let_def
    using chunks_of_concat [OF _ len8] foldl_append_byte [OF assms, of env "[]"] nopad
    by simp
qed

lemma length_bits: "\<forall>b\<in>set bs. b < 256 \<Longrightarrow> length (concat (map (py_format 8 2) bs)) = 8 * length bs"
  using py_format_bits(1) [of _ 8] by (induction bs) auto

lemma py_slice_tail:
  "length p = 32 \<Longrightarrow> py_slice (p @ m) 32 (32 + int (length m)) = m"
  by (simp add: py_slice_def Let_def)

subsection \<open>The codec\<close>

lemma text_to_binary_Some:
  assumes "text_to_binary T = Some binary"
  obtains bs where "utf8_encode (normalize_text T) = Inr bs"
    and "binary = py_format 32 2 (8 * length bs) @ concat (map (py_format 8 2) bs)"
    and "\<forall>b\<in>set bs. b < 256"
proof -
  from assms obtain bs where e: "utf8_encode (normalize_text T) = Inr bs"
    and b: "binary = py_format 32 2 (length (concat (map (py_format 8 2) bs)))
                     @ concat (map (py_format 8 2) bs)"
    by (auto simp: text_to_binary_def Let_def split: sum.splits)
  from utf8_encode_bytes [OF e] have bl: "\<forall>b\<in>set bs. b < 256" .
  from that [OF e _ bl] b length_bits [OF bl] show ?thesis by simp
qed

lemma decode_bytes_utf8: "utf8_decode Ignore bs = Inr s \<Longrightarrow> decode_bytes bs = normalize_text s"
  by (simp add: decode_bytes_def)

lemma binary_to_text_roundtrip:
  assumes "text_to_binary T = Some binary" and "length binary < 2 ^ 32 + 32"
  shows "binary_to_text env binary = Some (normalize_text T)"
proof -
  from assms(1) obtain bs where e: "utf8_encode (normalize_text T) = Inr bs"
    and b: "binary = py_format 32 2 (8 * length bs) @ concat (map (py_format 8 2) bs)"
    and bl: "\<forall>b\<in>set bs. b < 256"
    by (rule text_to_binary_Some)
  have lb: "length (concat (map (py_format 8 2) bs)) = 8 * length bs"
    by (rule length_bits [OF bl])
  have "32 \<le> length (py_format 32 2 (8 * length bs))"
    by (simp add: py_format_def Let_def)
  with assms(2) b lb have small: "8 * length bs < 2 ^ 32" by simp
  from py_format_bits(1) [OF small] py_format_bits(3) [OF small, of env]
  have l32: "length (py_format 32 2 (8 * length bs)) = 32"
    and parse: "py_int env 2 (py_format 32 2 (8 * length bs)) = Some (int (8 * length bs))"
    by simp_all
  have tk: "take 32 binary = py_format 32 2 (8 * length bs)"
    by (simp add: b l32)
  have sl: "py_slice binary 32 (32 + int (8 * length bs)) = concat (map (py_format 8 2) bs)"
    using py_slice_tail [OF l32, of "concat (map (py_format 8 2) bs)"] by (simp add: b lb)
  have "decode_bytes bs = normalize_text (normalize_text T)"
    by (rule decode_bytes_utf8) (rule utf8_roundtrip [OF e])
  then show ?thesis
    by (simp add: binary_to_text_def tk parse sl bytes_of_bits_format [OF bl] normalize_text_idem
        del: of_nat_mult)
qed

lemma text_to_binary_encodable:
  assumes "\<forall>c\<in>set T. utf8_encode_char c \<noteq> None"
  shows "text_to_binary T \<noteq> None"
proof -
  have "utf8_encode_char 10 \<noteq> None" "utf8_encode_char 32 \<noteq> None"
    by (simp_all add: utf8_encode_char_def)
  with assms set_normalize_text [of T]
  have "\<forall>c\<in>set (normalize_text T). utf8_encode_char c \<noteq> None" by auto
  from utf8_encode_ok [OF this] show ?thesis
    by (auto simp: text_to_binary_def Let_def)
qed














lemma replicate_numeral: "replicate (numeral k) x = x # replicate (pred_numeral k) x"
  by (simp add: numeral_eq_Suc)

lemmas codec_eval = replicate_numeral text_to_binary_def normalize_text_def normalize_line_def py_split_def
  py_split_acc.simps py_split_ws_def py_isspace_def utf8_encode_char_def py_format_def
  to_base.simps digit_char_def binary_to_text_def py_int_def parse_digits_def to_ascii_def
  ascii_space_def skip_sign_def skip_prefix_def digit_value_def from_digits_def over_limit_def
  py_slice_def bytes_of_bits_def chunks_of.simps append_byte_def decode_bytes_def utf8_next_def
  emit_def bad_def is_cont_def second_ok_def lit_def Let_def

text \<open>
  Claim C4 (amended). Whenever \<^verbatim>\<open>text_to_binary\<close> returns a bit string whose message part
  has fewer than \<open>2^32\<close> bits, \<^verbatim>\<open>binary_to_text\<close> of it is the normalised text; it does
  return one for every text of encodable code points (no surrogates); and
  normalisation is idempotent for every text.
\<close>
theorem codec_roundtrip_normalizes:
  "(text_to_binary T = Some binary \<and> length binary < 2 ^ 32 + 32 \<longrightarrow>
      binary_to_text env binary = Some (normalize_text T))
   \<and> ((\<forall>c\<in>set T. utf8_encode_char c \<noteq> None) \<longrightarrow> text_to_binary T \<noteq> None)
   \<and> normalize_text (normalize_text T) = normalize_text T"
  using binary_to_text_roundtrip [of T binary env] text_to_binary_encodable [of T]
  by (simp add: normalize_text_idem)

theorem codec_roundtrip_normalizes_witness:
  "text_to_binary [32, 97, 32, 32, 233, 10, 98, 9]
     = Some (lit ''00000000000000000000000000110000''
             @ lit ''011000010010000011000011101010010000101001100010'')
   \<and> binary_to_text env0 (lit ''00000000000000000000000000110000''
             @ lit ''011000010010000011000011101010010000101001100010'')
     = Some [97, 32, 233, 10, 98]
   \<and> normalize_text [32, 97, 32, 32, 233, 10, 98, 9] = [97, 32, 233, 10, 98]
   \<and> normalize_text [97, 32, 233, 10, 98] = [97, 32, 233, 10, 98]"
proof -
  have n: "normalize_text [32, 97, 32, 32, 233, 10, 98, 9] = [97, 32, 233, 10, 98]"
    by (simp add: codec_eval split del: if_split)
  have t: "text_to_binary [32, 97, 32, 32, 233, 10, 98, 9]
     = Some (lit ''00000000000000000000000000110000''
             @ lit ''011000010010000011000011101010010000101001100010'')"
    by (simp add: codec_eval split del: if_split)
  have l: "length (lit ''00000000000000000000000000110000''
             @ lit ''011000010010000011000011101010010000101001100010'') < 2 ^ 32 + 32"
    by (simp add: lit_def)
  have e: "\<forall>c\<in>set [32, 97, 32, 32, 233, 10, 98, 9 :: nat]. utf8_encode_char c \<noteq> None"
    by (simp add: utf8_encode_char_def)
  from codec_roundtrip_normalizes [of "[32, 97, 32, 32, 233, 10, 98, 9]"
      "lit ''00000000000000000000000000110000''
         @ lit ''011000010010000011000011101010010000101001100010''" env0] t l e n
  show ?thesis by simp
qed

theorem codec_roundtrip_counterexample:
  "Option.bind (text_to_binary [55296]) (binary_to_text env0) \<noteq> Some (normalize_text [55296])"
  by (simp add: codec_eval split del: if_split)




text \<open>
  Claim C10. Decoding with \<^verbatim>\<open>errors='ignore'\<close> always returns, so whenever the length
  prefix parses, \<^verbatim>\<open>binary_to_text\<close> returns the normalised UTF-8 decoding of the bytes
  and never their Latin-1 decoding.
\<close>
theorem latin1_fallback_unreachable:
  "(\<exists>decoded. utf8_decode Ignore bytes_data = Inr decoded
       \<and> decode_bytes bytes_data = normalize_text decoded)
   \<and> (py_int env 2 (take 32 binary) = Some message_length \<longrightarrow>
        (\<exists>decoded.
           utf8_decode Ignore (bytes_of_bits env (py_slice binary 32 (32 + message_length)))
             = Inr decoded
           \<and> binary_to_text env binary = Some (normalize_text decoded)))"
proof -
  have "\<exists>decoded. utf8_decode Ignore bs = Inr decoded \<and> decode_bytes bs = normalize_text decoded"
    for bs
    using utf8_decode_ignore_total [of bs] by (auto simp: decode_bytes_def)
  then show ?thesis
    by (auto simp: binary_to_text_def)
qed

theorem latin1_fallback_unreachable_witness:
  "py_int env0 2 (take 32 (lit ''000000000000000000000000000100001111111101000001'')) = Some 16
   \<and> bytes_of_bits env0 (py_slice (lit ''000000000000000000000000000100001111111101000001'') 32 (32 + 16))
       = [255, 65]
   \<and> utf8_decode Ignore [255, 65] = Inr [65]
   \<and> binary_to_text env0 (lit ''000000000000000000000000000100001111111101000001'') = Some [65]
   \<and> latin1_decode [255, 65] = [255, 65]"
proof -
  have p: "py_int env0 2 (take 32 (lit ''000000000000000000000000000100001111111101000001'')) = Some 16"
    by (simp add: codec_eval split del: if_split)
  have b: "bytes_of_bits env0 (py_slice (lit ''000000000000000000000000000100001111111101000001'') 32 (32 + 16))
       = [255, 65]"
    by (simp add: codec_eval split del: if_split)
  have u: "utf8_decode Ignore [255, 65] = Inr [65]"
    by (simp add: codec_eval split del: if_split)
  have n: "normalize_text [65] = [65]"
    by (simp add: codec_eval split del: if_split)
  from latin1_fallback_unreachable [of "[255, 65]" env0
      "lit ''000000000000000000000000000100001111111101000001''" 16] p b u n
  show ?thesis by (simp add: latin1_decode_def)
qed

end
